theory Spec2Isabelle
  imports Main "HOL-Library.Word"
begin

unbundle bit_operations_syntax

section \<open>The ABI structures of include/swift/ABI/Task.h\<close>

text \<open>
  The header describes jobs, tasks and the packed status word of a task. The
  embedding is parametric in the pointer width: a pointer and a \<open>uintptr_t\<close> are
  both a \<open>'w word\<close>, the null pointer is \<open>0\<close>, and \<open>reinterpret_cast\<close> between
  the two is the identity. A function pointer is the address of the function.
  The records take the type of pointers as their parameter \<open>'p\<close>; the operations
  use them at \<open>'p = 'w word\<close>.
\<close>

subsection \<open>Failures\<close>

text \<open>
  The header has no recoverable error. A failed \<open>assert\<close> ends the program: it is
  the value \<open>Assertion\<close>, carrying the asserted expression. \<open>InvalidDowncast\<close>
  is the result of using a \<open>Job\<close> as an \<open>AsyncTask\<close> when the object it is part of
  is no task (which C++ leaves undefined).
\<close>

datatype failure = Assertion string | InvalidDowncast

subsection \<open>ExecutorRef\<close>

record 'p ExecutorRef =
  Pointer :: 'p

definition noPreference :: "('w::len word) ExecutorRef" where
  "noPreference = \<lparr>Pointer = 0\<rparr>"

subsection \<open>JobFlags\<close>

text \<open>
  Modelled from the spec: \<open>JobFlags\<close> is declared in swift/ABI/MetadataValues.h,
  which is not among the sources. Task.h reads it through three accessors only:
  \<open>isAsyncTask()\<close> (the spec's "is task" bit), \<open>task_isFuture()\<close> and
  \<open>task_isChildTask()\<close> (the spec's "is child task" flag). A value of the record
  is what the three accessors return.
\<close>

record JobFlags =
  isAsyncTask :: bool
  task_isFuture :: bool
  task_isChildTask :: bool

subsection \<open>ActiveTaskStatus\<close>

text \<open>The anonymous enum of \<open>ActiveTaskStatus\<close>.\<close>

definition IsCancelled :: "'w::len word" where
  "IsCancelled = 0x1"

definition IsLocked :: "'w::len word" where
  "IsLocked = 0x2"

definition RecordMask :: "'w::len word" where
  "RecordMask = NOT (IsCancelled OR IsLocked)"

record 'p ActiveTaskStatus =
  Value :: 'p

text \<open>The default constructor, \<open>Value(0)\<close>.\<close>

definition ActiveTaskStatus_default :: "'w::len word ActiveTaskStatus" where
  "ActiveTaskStatus_default = \<lparr>Value = 0\<rparr>"

text \<open>
  The constructor from (innermostRecord, cancelled, locked): the pointer plus the
  two flag constants, in the order the source adds them.
\<close>

definition ActiveTaskStatus_init ::
  "'w::len word \<Rightarrow> bool \<Rightarrow> bool \<Rightarrow> 'w word ActiveTaskStatus" where
  "ActiveTaskStatus_init innermostRecord cancelled locked =
     \<lparr>Value = innermostRecord
               + (if locked then IsLocked else 0)
               + (if cancelled then IsCancelled else 0)\<rparr>"

text \<open>The accessors. The conversion of a \<open>uintptr_t\<close> to \<open>bool\<close> is \<open>\<noteq> 0\<close>.\<close>

definition isCancelled :: "'w::len word ActiveTaskStatus \<Rightarrow> bool" where
  "isCancelled s = (Value s AND IsCancelled \<noteq> 0)"

definition isLocked :: "'w::len word ActiveTaskStatus \<Rightarrow> bool" where
  "isLocked s = (Value s AND IsLocked \<noteq> 0)"

definition getInnermostRecord :: "'w::len word ActiveTaskStatus \<Rightarrow> 'w word" where
  "getInnermostRecord s = (Value s AND RecordMask)"

subsection \<open>Job\<close>

text \<open>
  The union of \<open>RunJob\<close> and \<open>ResumeTask\<close> is one pointer-sized slot, read under
  either name. \<open>SchedulerPrivate\<close> is left uninitialised by the constructors:
  a slot that was never written is \<open>None\<close>.
\<close>

record 'p Job =
  SchedulerPrivate :: "'p option list"
  Flags :: JobFlags
  FunctionSlot :: 'p

definition RunJob :: "'p Job \<Rightarrow> 'p" where
  "RunJob this = FunctionSlot this"

definition ResumeTask :: "'p Job \<Rightarrow> 'p" where
  "ResumeTask this = FunctionSlot this"

definition Job_isAsyncTask :: "'p Job \<Rightarrow> bool" where
  "Job_isAsyncTask this = isAsyncTask (Flags this)"

text \<open>\<open>Job(JobFlags flags, JobInvokeFunction *invoke)\<close>, with its assertion.\<close>

definition Job_JobInvokeFunction :: "JobFlags \<Rightarrow> 'p \<Rightarrow> failure + 'p Job" where
  "Job_JobInvokeFunction flags invoke =
     (let this = \<lparr>SchedulerPrivate = [None, None], Flags = flags, FunctionSlot = invoke\<rparr>
      in if \<not> Job_isAsyncTask this then Inr this
         else Inl (Assertion ''!isAsyncTask() && wrong constructor for a task''))"

text \<open>\<open>Job(JobFlags flags, TaskContinuationFunction *invoke)\<close>, with its assertion.\<close>

definition Job_TaskContinuationFunction :: "JobFlags \<Rightarrow> 'p \<Rightarrow> failure + 'p Job" where
  "Job_TaskContinuationFunction flags invoke =
     (let this = \<lparr>SchedulerPrivate = [None, None], Flags = flags, FunctionSlot = invoke\<rparr>
      in if Job_isAsyncTask this then Inr this
         else Inl (Assertion ''isAsyncTask() && wrong constructor for a non-task job''))"

subsection \<open>AsyncTask\<close>

text \<open>
  \<open>AsyncTask\<close> derives from \<open>HeapObject\<close> and from \<open>Job\<close>. The declaration of
  \<open>HeapObject\<close> is not among the sources; of it the record keeps the metadata
  pointer that the constructor passes on. The \<open>Job\<close> base is the field \<open>job\<close>.
  \<open>Status\<close> is the content of the \<open>std::atomic\<close> cell.
\<close>

record 'p AsyncTask =
  metadata :: 'p
  job :: "'p Job"
  ResumeContext :: 'p
  Status :: "'p ActiveTaskStatus"
  AllocatorPrivate :: "'p option list"

definition AsyncTask_init ::
  "'w::len word \<Rightarrow> JobFlags \<Rightarrow> 'w word \<Rightarrow> 'w word \<Rightarrow> failure + 'w word AsyncTask" where
  "AsyncTask_init md flags run initialContext =
     (case Job_TaskContinuationFunction flags run of
        Inl e \<Rightarrow> Inl e
      | Inr j \<Rightarrow>
          (let this = \<lparr>metadata = md, job = j, ResumeContext = initialContext,
                       Status = ActiveTaskStatus_default,
                       AllocatorPrivate = [None, None, None, None]\<rparr>
           in if isAsyncTask flags then Inr this
              else Inl (Assertion ''flags.isAsyncTask()'')))"

text \<open>
  What \<open>run\<close> does is one indirect call. The function called is code outside
  the header, so the model returns the call: the function pointer and arguments.
\<close>

datatype 'p call =
  RunJob_call 'p 'p "'p ExecutorRef"
  | ResumeTask_call 'p 'p "'p ExecutorRef" 'p

text \<open>\<open>AsyncTask::run\<close>: \<open>ResumeTask(this, currentExecutor, ResumeContext)\<close>.\<close>

definition AsyncTask_run :: "'p \<Rightarrow> 'p AsyncTask \<Rightarrow> 'p ExecutorRef \<Rightarrow> 'p call" where
  "AsyncTask_run this task currentExecutor =
     ResumeTask_call (ResumeTask (job task)) this currentExecutor (ResumeContext task)"

text \<open>
  \<open>Job::run\<close> is called through a \<open>Job *\<close>, which points either at a job of
  its own or at the \<open>Job\<close> base of a task: the two kinds of object. A pointer
  is the identity of the whole object (the distance between a task and its
  \<open>Job\<close> base is layout, which the model leaves out).
\<close>

datatype 'p object = JobObject "'p Job" | TaskObject "'p AsyncTask"

fun Job_of :: "'p object \<Rightarrow> 'p Job" where
  "Job_of (JobObject j) = j"
| "Job_of (TaskObject t) = job t"

text \<open>\<open>AsyncTask::classof(const Job *job)\<close>.\<close>

definition classof :: "'p Job \<Rightarrow> bool" where
  "classof j = Job_isAsyncTask j"

text \<open>
  \<open>dyn_cast<AsyncTask>(this)\<close>: the null pointer (\<open>None\<close>) when \<open>classof\<close>
  says no, the object as a task when it says yes. When it says yes of an object
  that is no task, the cast has no defined result.
\<close>

definition dyn_cast_AsyncTask :: "'p object \<Rightarrow> failure + 'p AsyncTask option" where
  "dyn_cast_AsyncTask obj =
     (if classof (Job_of obj)
      then (case obj of TaskObject t \<Rightarrow> Inr (Some t) | JobObject j \<Rightarrow> Inl InvalidDowncast)
      else Inr None)"

definition Job_run :: "'p \<Rightarrow> 'p object \<Rightarrow> 'p ExecutorRef \<Rightarrow> failure + 'p call" where
  "Job_run this obj currentExecutor =
     (case dyn_cast_AsyncTask obj of
        Inl e \<Rightarrow> Inl e
      | Inr (Some task) \<Rightarrow> Inr (AsyncTask_run this task currentExecutor)
      | Inr None \<Rightarrow> Inr (RunJob_call (RunJob (Job_of obj)) this currentExecutor))"

text \<open>
  \<open>AsyncTask::isCancelled\<close> reads the atomic cell. The accesses to the cell are
  logged, each with its memory order, and the method returns its result with the
  task as it leaves it and the log of its accesses.
\<close>

datatype memory_order =
  memory_order_relaxed | memory_order_consume | memory_order_acquire
  | memory_order_release | memory_order_acq_rel | memory_order_seq_cst

datatype atomic_access =
  Load memory_order | Store memory_order | CompareExchange memory_order memory_order

definition atomic_load :: "memory_order \<Rightarrow> 'a \<Rightarrow> 'a \<times> atomic_access list" where
  "atomic_load order cell = (cell, [Load order])"

definition AsyncTask_isCancelled ::
  "'w::len word AsyncTask \<Rightarrow> bool \<times> 'w word AsyncTask \<times> atomic_access list" where
  "AsyncTask_isCancelled this =
     (case atomic_load memory_order_relaxed (Status this) of
        (snapshot, accesses) \<Rightarrow> (isCancelled snapshot, this, accesses))"

definition isFuture :: "'p AsyncTask \<Rightarrow> bool" where
  "isFuture this = task_isFuture (Flags (job this))"

definition hasChildFragment :: "'p AsyncTask \<Rightarrow> bool" where
  "hasChildFragment this = task_isChildTask (Flags (job this))"

text \<open>
  \<open>sizeof(AsyncTask)\<close> is \<open>12 * sizeof(void*)\<close>, as the header's
  \<open>static_assert\<close> fixes it; a pointer of \<open>LENGTH('w)\<close> bits has
  \<open>LENGTH('w) div 8\<close> bytes.
\<close>

definition sizeof_pointer :: "'w::len word" where
  "sizeof_pointer = of_nat (LENGTH('w) div 8)"

definition sizeof_AsyncTask :: "'w::len word" where
  "sizeof_AsyncTask = 12 * sizeof_pointer"

text \<open>
  \<open>childFragment\<close>: the assertion, then \<open>this + 1\<close>, the address one
  \<open>AsyncTask\<close> past \<open>this\<close>.
\<close>

definition childFragment :: "'w::len word \<Rightarrow> 'w word AsyncTask \<Rightarrow> failure + 'w word" where
  "childFragment this task =
     (if hasChildFragment task then Inr (this + 1 * sizeof_AsyncTask)
      else Inl (Assertion ''hasChildFragment()''))"

subsection \<open>The records of a status\<close>

text \<open>
  Modelled from the spec: \<open>LinkedListIterator\<close> with its \<open>rangeBeginning\<close>
  (swift/Basic/STLExtras.h) and the body of \<open>getStatusRecordParent\<close> are not
  among the sources. The spec has \<open>records()\<close> produce "a lazy, finite,
  restartable-from-scratch sequence over the linked list starting at the
  innermost record, following each record's parent link until null". The range
  is the pair of its first pointer and the null pointer; going through it visits
  the current pointer and steps to its parent until the current pointer is the
  end of the range. The parent link of the records is the parameter
  \<open>getStatusRecordParent\<close>. A traversal that never reaches the end has no result:
  it is \<open>None\<close>.
\<close>

record 'p iterator_range =
  range_begin :: 'p
  range_end :: 'p

definition rangeBeginning :: "'w::len word \<Rightarrow> 'w word iterator_range" where
  "rangeBeginning first = \<lparr>range_begin = first, range_end = 0\<rparr>"

text \<open>
  Modelled from the spec: the loop over a range, from the current pointer to the
  end of the range, "following each record's parent link until null".
\<close>

partial_function (option) visit :: "('p \<Rightarrow> 'p) \<Rightarrow> 'p \<Rightarrow> 'p \<Rightarrow> 'p list option" where
  "visit getNext current finish =
     (if current = finish then Some []
      else Option.bind (visit getNext (getNext current) finish)
             (\<lambda>rest. Some (current # rest)))"

definition traverse :: "('p \<Rightarrow> 'p) \<Rightarrow> 'p iterator_range \<Rightarrow> 'p list option" where
  "traverse getNext r = visit getNext (range_begin r) (range_end r)"

text \<open>
  \<open>ActiveTaskStatus::records\<close>, as the header has it: the range beginning at
  the innermost record.
\<close>

definition records :: "'w::len word ActiveTaskStatus \<Rightarrow> 'w word iterator_range" where
  "records s = rangeBeginning (getInnermostRecord s)"

text \<open>
  The well-formed lists of status records: the records reached from \<open>p\<close> are
  exactly the list \<open>rs\<close>, innermost first, when each is a record (not null),
  each is followed by its parent, and the parent of the last is null.
\<close>

fun chain :: "('w::len word \<Rightarrow> 'w word) \<Rightarrow> 'w word \<Rightarrow> 'w word list \<Rightarrow> bool" where
  "chain parent p [] = (p = 0)"
| "chain parent p (r # rs) = (p = r \<and> r \<noteq> 0 \<and> chain parent (parent r) rs)"

subsection \<open>Releasing the lock and cancelling\<close>

text \<open>
  Modelled from the spec: the operations of the runtime that lock, unlock and
  cancel the status of a task are not among the sources; Task.h declares the
  atomic field only. The spec gives the protocol: "every mutation is a single
  atomic compare-and-swap of the whole packed word", with "retry on CAS failure
  until it succeeds"; "releasing the lock is a compare-and-swap clearing the lock
  bit while preserving any concurrent cancellation bit set in the meantime"; a
  canceller "sets the cancelled bit via an independent CAS path".

  \<open>compare_exchange\<close> is the compare-and-swap of \<open>std::atomic\<close> on the content of
  the cell: it returns whether it succeeded, the new content of the cell and the
  new value of \<open>expected\<close> (the content it found, when it fails).
\<close>

definition compare_exchange :: "'a \<Rightarrow> 'a \<Rightarrow> 'a \<Rightarrow> bool \<times> 'a \<times> 'a" where
  "compare_exchange cell expected desired =
     (if cell = expected then (True, desired, expected) else (False, cell, cell))"

text \<open>
  Modelled from the spec: the word a thread wants to install, built from the
  snapshot it holds with the constructor and the accessors of the header. The
  release is "clearing the lock bit while preserving any concurrent cancellation
  bit": the same record and cancelled bit with the lock bit clear. The
  cancellation sets the cancelled bit of the same record and lock bit.
\<close>

definition released :: "'w::len word ActiveTaskStatus \<Rightarrow> 'w word ActiveTaskStatus" where
  "released old = ActiveTaskStatus_init (getInnermostRecord old) (isCancelled old) False"

definition with_cancellation ::
  "'w::len word ActiveTaskStatus \<Rightarrow> 'w word ActiveTaskStatus" where
  "with_cancellation old = ActiveTaskStatus_init (getInnermostRecord old) True (isLocked old)"

text \<open>
  Modelled from the spec: a thread in its compare-and-swap loop ("retry on CAS
  failure until it succeeds") is before its load, holding a snapshot, or done.
  One step of the thread is one atomic access to the cell: the load, or a
  compare-and-swap that ends the loop when it succeeds and otherwise leaves the
  thread with the content it found.
\<close>

datatype 's progress = Start | Snapshot 's | Finished

fun cas_loop_step :: "('s \<Rightarrow> 's) \<Rightarrow> 's \<Rightarrow> 's progress \<Rightarrow> 's \<times> 's progress" where
  "cas_loop_step update cell Start = (cell, Snapshot cell)"
| "cas_loop_step update cell (Snapshot old) =
     (case compare_exchange cell old (update old) of
        (True, cell', old') \<Rightarrow> (cell', Finished)
      | (False, cell', old') \<Rightarrow> (cell', Snapshot old'))"
| "cas_loop_step update cell Finished = (cell, Finished)"

text \<open>
  Modelled from the spec: two threads share the status cell of one task, the
  holder of the lock, which releases it, and a canceller. A schedule is the order
  in which the threads take their steps; the cell being one atomic object, its
  accesses happen in one order.
\<close>

datatype thread = LockHolder | Canceller

record 's system =
  status_cell :: 's
  lock_holder :: "'s progress"
  canceller :: "'s progress"

fun step ::
  "thread \<Rightarrow> 'w::len word ActiveTaskStatus system \<Rightarrow> 'w word ActiveTaskStatus system" where
  "step LockHolder sys =
     (case cas_loop_step released (status_cell sys) (lock_holder sys) of
        (cell', pr) \<Rightarrow> sys\<lparr>status_cell := cell', lock_holder := pr\<rparr>)"
| "step Canceller sys =
     (case cas_loop_step with_cancellation (status_cell sys) (canceller sys) of
        (cell', pr) \<Rightarrow> sys\<lparr>status_cell := cell', canceller := pr\<rparr>)"

fun run_schedule ::
  "thread list \<Rightarrow> 'w::len word ActiveTaskStatus system \<Rightarrow> 'w word ActiveTaskStatus system" where
  "run_schedule [] sys = sys"
| "run_schedule (t # ts) sys = run_schedule ts (step t sys)"

text \<open>
  A bound on the steps a thread still needs before its loop ends, from its own
  progress, the content of the cell and whether the other thread is done: a
  compare-and-swap fails only after the other thread's has succeeded, which
  happens once.
\<close>

fun steps_left :: "'s progress \<Rightarrow> 's \<Rightarrow> bool \<Rightarrow> nat" where
  "steps_left Finished cell other_done = 0"
| "steps_left Start cell other_done = (if other_done then 2 else 3)"
| "steps_left (Snapshot v) cell other_done =
     (if v = cell then (if other_done then 1 else 2) else (if other_done then 2 else 3))"

section \<open>The bits of the status word\<close>

lemma bit_IsCancelled: "bit (IsCancelled :: 'w::len word) n \<longleftrightarrow> n = 0"
  by (simp add: IsCancelled_def bit_1_iff)

lemma bit_IsLocked:
  "bit (IsLocked :: 'w::len word) n \<longleftrightarrow> n = 1 \<and> 2 \<le> LENGTH('w)"
  by (auto simp add: IsLocked_def bit_2_iff possible_bit_word)

lemma word_nonzero_bit: "(w :: 'w::len word) \<noteq> 0 \<longleftrightarrow> (\<exists>n. bit w n)"
  by (auto simp add: bit_eq_iff [where ?'a = "'w word"] dest: bit_imp_le_length)

lemma and_IsCancelled: "(v AND (IsCancelled :: 'w::len word) \<noteq> 0) = bit v 0"
  by (simp add: word_nonzero_bit bit_and_iff bit_IsCancelled)

lemma and_IsLocked:
  "(v AND (IsLocked :: 'w::len word) \<noteq> 0) = (bit v 1 \<and> 2 \<le> LENGTH('w))"
  by (simp add: word_nonzero_bit bit_and_iff bit_IsLocked)

lemma bit_RecordMask:
  "bit (RecordMask :: 'w::len word) n \<longleftrightarrow> n < LENGTH('w) \<and> 2 \<le> n"
  by (auto simp add: RecordMask_def bit_not_iff bit_or_iff bit_and_iff
      bit_IsCancelled bit_IsLocked possible_bit_word)

text \<open>On a pointer whose two low bits are zero the two additions set bits.\<close>

lemma init_Value_or:
  fixes p :: "'w::len word"
  assumes "\<not> bit p 0" "\<not> bit p 1"
  shows "Value (ActiveTaskStatus_init p c l)
       = p OR (if l then IsLocked else 0) OR (if c then IsCancelled else 0)"
proof -
  have locked: "p + (if l then IsLocked else 0) = p OR (if l then IsLocked else 0)"
    using assms by (intro disjunctive_add) (auto simp add: bit_IsLocked)
  have cancelled:
    "(p OR (if l then IsLocked else 0)) + (if c then IsCancelled else 0)
       = (p OR (if l then IsLocked else 0)) OR (if c then IsCancelled else 0)"
    using assms
    by (intro disjunctive_add)
      (auto simp add: bit_or_iff bit_IsLocked bit_IsCancelled intro!: gr0I)
  show ?thesis
    unfolding ActiveTaskStatus_init_def by (simp add: locked cancelled or.assoc)
qed

lemma bit_init_Value:
  fixes p :: "'w::len word"
  assumes "\<not> bit p 0" "\<not> bit p 1"
  shows "bit (Value (ActiveTaskStatus_init p c l)) n
       \<longleftrightarrow> bit p n \<or> (l \<and> n = 1 \<and> 2 \<le> LENGTH('w)) \<or> (c \<and> n = 0)"
  by (simp add: init_Value_or [OF assms] bit_or_iff bit_IsLocked bit_IsCancelled)

lemma isCancelled_bit: "isCancelled s = bit (Value s) 0"
  by (simp add: isCancelled_def and_IsCancelled)

lemma isLocked_bit:
  "isLocked (s :: 'w::len word ActiveTaskStatus) = (bit (Value s) 1 \<and> 2 \<le> LENGTH('w))"
  by (simp add: isLocked_def and_IsLocked)

lemma bit_getInnermostRecord:
  "bit (getInnermostRecord s) n \<longleftrightarrow> bit (Value s) n \<and> 2 \<le> n"
  by (auto simp add: getInnermostRecord_def bit_and_iff bit_RecordMask
      dest: bit_imp_le_length)

lemma init_getInnermostRecord:
  fixes p :: "'w::len word"
  assumes "\<not> bit p 0" "\<not> bit p 1"
  shows "getInnermostRecord (ActiveTaskStatus_init p c l) = p"
proof (rule bit_word_eqI)
  fix n
  assume "n < LENGTH('w)"
  show "bit (getInnermostRecord (ActiveTaskStatus_init p c l)) n \<longleftrightarrow> bit p n"
  proof (cases "2 \<le> n")
    case True
    then show ?thesis
      by (simp add: bit_getInnermostRecord bit_init_Value [OF assms])
  next
    case False
    then have "n = 0 \<or> n = 1" by arith
    with assms show ?thesis
      by (auto simp add: bit_getInnermostRecord)
  qed
qed

lemma init_isCancelled:
  fixes p :: "'w::len word"
  assumes "\<not> bit p 0" "\<not> bit p 1"
  shows "isCancelled (ActiveTaskStatus_init p c l) = c"
  using assms(1) by (simp add: isCancelled_bit bit_init_Value [OF assms])

lemma init_isLocked:
  fixes p :: "'w::len word"
  assumes "2 \<le> LENGTH('w)" "\<not> bit p 0" "\<not> bit p 1"
  shows "isLocked (ActiveTaskStatus_init p c l) = l"
  using assms(1,3) by (simp add: isLocked_bit bit_init_Value [OF assms(2,3)])

text \<open>The record pointer read from any status word has its two low bits clear.\<close>

lemma getInnermostRecord_low_bits:
  "\<not> bit (getInnermostRecord s) 0" "\<not> bit (getInnermostRecord s) 1"
  by (simp_all add: bit_getInnermostRecord)

lemma flags_or_3: "(IsCancelled OR IsLocked :: 'w::len word) = 3"
proof -
  have "(1 :: 'w word) + 2 = 1 OR 2"
    by (intro disjunctive_add) (auto simp add: bit_1_iff bit_2_iff)
  then show ?thesis
    by (simp add: IsCancelled_def IsLocked_def)
qed

section \<open>Chains of status records\<close>

lemma visit_chain:
  "chain parent p rs \<Longrightarrow> visit parent p 0 = Some rs"
proof (induction rs arbitrary: p)
  case Nil
  then show ?case by (subst visit.simps) simp
next
  case (Cons r rs)
  then have "p = r" "r \<noteq> 0" "visit parent (parent r) 0 = Some rs"
    by simp_all
  then show ?case by (subst visit.simps) simp
qed

lemma chain_unique:
  "chain parent p rs \<Longrightarrow> chain parent p rs' \<Longrightarrow> rs = rs'"
proof (induction rs arbitrary: p rs')
  case Nil
  then show ?case by (cases rs') simp_all
next
  case (Cons r rs)
  then show ?case by (cases rs') auto
qed

lemma chain_from_member:
  "chain parent p rs \<Longrightarrow> q \<in> set rs \<Longrightarrow>
   \<exists>zs. chain parent q zs \<and> length zs \<le> length rs"
proof (induction rs arbitrary: p)
  case Nil
  then show ?case by simp
next
  case (Cons r rs)
  show ?case
  proof (cases "q = r")
    case True
    with Cons.prems(1) have "chain parent q (r # rs)" by simp
    then show ?thesis by blast
  next
    case False
    with Cons.prems have "chain parent (parent r) rs" "q \<in> set rs" by simp_all
    from Cons.IH [OF this] obtain zs
      where "chain parent q zs" "length zs \<le> length rs" by blast
    then show ?thesis by (intro exI [of _ zs]) simp
  qed
qed

lemma chain_distinct: "chain parent p rs \<Longrightarrow> distinct rs"
proof (induction rs arbitrary: p)
  case Nil
  then show ?case by simp
next
  case (Cons r rs)
  then have rest: "chain parent (parent r) rs" and whole: "chain parent r (r # rs)"
    by simp_all
  have "r \<notin> set rs"
  proof
    assume "r \<in> set rs"
    from chain_from_member [OF rest this] obtain zs
      where zs: "chain parent r zs" "length zs \<le> length rs" by blast
    from chain_unique [OF whole zs(1)] zs(2) show False by auto
  qed
  with Cons.IH [OF rest] show ?case by simp
qed

lemma chain_not_null: "chain parent p rs \<Longrightarrow> 0 \<notin> set rs"
  by (induction rs arbitrary: p) auto

lemma traverse_records:
  "traverse parent (records s) = visit parent (getInnermostRecord s) 0"
  by (simp add: traverse_def records_def rangeBeginning_def)

section \<open>Steps of the two threads\<close>

lemma released_bits:
  fixes s :: "'w::len word ActiveTaskStatus"
  assumes "2 \<le> LENGTH('w)"
  shows "isCancelled (released s) = isCancelled s" and "isLocked (released s) = False"
  unfolding released_def
  by (rule init_isCancelled [OF getInnermostRecord_low_bits])
    (rule init_isLocked [OF assms getInnermostRecord_low_bits])

lemma with_cancellation_bits:
  fixes s :: "'w::len word ActiveTaskStatus"
  assumes "2 \<le> LENGTH('w)"
  shows "isCancelled (with_cancellation s) = True"
    and "isLocked (with_cancellation s) = isLocked s"
  unfolding with_cancellation_def
  by (rule init_isCancelled [OF getInnermostRecord_low_bits])
    (rule init_isLocked [OF assms getInnermostRecord_low_bits])

text \<open>
  What one step of a thread does to the cell and to the thread: nothing to the
  cell unless the thread holds the current content, in which case the thread
  finishes and the cell holds the updated content.
\<close>

lemma cas_loop_step_cases:
  "cas_loop_step update cell pr = (cell', pr') \<Longrightarrow>
     (cell' = cell \<and> (pr' = Finished) = (pr = Finished))
   \<or> (pr = Snapshot cell \<and> cell' = update cell \<and> pr' = Finished)"
  by (cases pr) (auto simp add: compare_exchange_def split: if_splits)

lemma step_cancelled_mono:
  fixes sys :: "'w::len word ActiveTaskStatus system"
  assumes "2 \<le> LENGTH('w)" and "isCancelled (status_cell sys)"
  shows "isCancelled (status_cell (step t sys))"
proof (cases t)
  case LockHolder
  obtain cell' pr' where
    st: "cas_loop_step released (status_cell sys) (lock_holder sys) = (cell', pr')"
    by (cases "cas_loop_step released (status_cell sys) (lock_holder sys)")
  from cas_loop_step_cases [OF st] assms released_bits (1) [OF assms(1)]
  have "isCancelled cell'" by auto
  with LockHolder st show ?thesis by simp
next
  case Canceller
  obtain cell' pr' where
    st: "cas_loop_step with_cancellation (status_cell sys) (canceller sys) = (cell', pr')"
    by (cases "cas_loop_step with_cancellation (status_cell sys) (canceller sys)")
  from cas_loop_step_cases [OF st] assms with_cancellation_bits (1) [OF assms(1)]
  have "isCancelled cell'" by auto
  with Canceller st show ?thesis by simp
qed

lemma step_invariant:
  fixes sys :: "'w::len word ActiveTaskStatus system"
  assumes "2 \<le> LENGTH('w)"
    and "canceller sys = Finished \<longrightarrow> isCancelled (status_cell sys)"
    and "(lock_holder sys = Finished) = (\<not> isLocked (status_cell sys))"
  shows "(canceller (step t sys) = Finished \<longrightarrow> isCancelled (status_cell (step t sys)))
       \<and> (lock_holder (step t sys) = Finished) = (\<not> isLocked (status_cell (step t sys)))"
proof (cases t)
  case LockHolder
  obtain cell' pr' where
    st: "cas_loop_step released (status_cell sys) (lock_holder sys) = (cell', pr')"
    by (cases "cas_loop_step released (status_cell sys) (lock_holder sys)")
  from cas_loop_step_cases [OF st] assms(2,3) released_bits [OF assms(1)]
  have "(canceller sys = Finished \<longrightarrow> isCancelled cell')
      \<and> (pr' = Finished) = (\<not> isLocked cell')"
    by auto
  with LockHolder st show ?thesis by simp
next
  case Canceller
  obtain cell' pr' where
    st: "cas_loop_step with_cancellation (status_cell sys) (canceller sys) = (cell', pr')"
    by (cases "cas_loop_step with_cancellation (status_cell sys) (canceller sys)")
  from cas_loop_step_cases [OF st] assms(2,3) with_cancellation_bits [OF assms(1)]
  have "(pr' = Finished \<longrightarrow> isCancelled cell')
      \<and> (lock_holder sys = Finished) = (\<not> isLocked cell')"
    by auto
  with Canceller st show ?thesis by simp
qed

lemma run_schedule_cancelled_mono:
  fixes sys :: "'w::len word ActiveTaskStatus system"
  assumes "2 \<le> LENGTH('w)"
  shows "isCancelled (status_cell sys) \<Longrightarrow> isCancelled (status_cell (run_schedule sched sys))"
proof (induction sched arbitrary: sys)
  case Nil
  then show ?case by simp
next
  case (Cons t ts)
  from Cons.prems have "isCancelled (status_cell (step t sys))"
    by (rule step_cancelled_mono [OF assms])
  then show ?case by (simp add: Cons.IH)
qed

lemma run_schedule_invariant:
  fixes sys :: "'w::len word ActiveTaskStatus system"
  assumes "2 \<le> LENGTH('w)"
  shows "canceller sys = Finished \<longrightarrow> isCancelled (status_cell sys) \<Longrightarrow>
         (lock_holder sys = Finished) = (\<not> isLocked (status_cell sys)) \<Longrightarrow>
         (canceller (run_schedule sched sys) = Finished
            \<longrightarrow> isCancelled (status_cell (run_schedule sched sys)))
       \<and> (lock_holder (run_schedule sched sys) = Finished)
            = (\<not> isLocked (status_cell (run_schedule sched sys)))"
proof (induction sched arbitrary: sys)
  case Nil
  then show ?case by simp
next
  case (Cons t ts)
  from step_invariant [OF assms Cons.prems, of t]
  have "canceller (step t sys) = Finished \<longrightarrow> isCancelled (status_cell (step t sys))"
    and "(lock_holder (step t sys) = Finished) = (\<not> isLocked (status_cell (step t sys)))"
    by simp_all
  from Cons.IH [OF this] show ?case by simp
qed

lemma run_schedule_append:
  "run_schedule (xs @ ys) sys = run_schedule ys (run_schedule xs sys)"
  by (induction xs arbitrary: sys) simp_all

text \<open>Each loop ends within three steps of its own thread.\<close>

lemma steps_left_0: "steps_left pr cell od = 0 \<longleftrightarrow> pr = Finished"
  by (cases pr) auto

lemma steps_left_le_3: "steps_left pr cell od \<le> 3"
  by (cases pr) auto

lemma steps_left_own:
  "cas_loop_step update cell pr = (cell', pr') \<Longrightarrow>
   steps_left pr' cell' od \<le> steps_left pr cell od - 1"
  by (cases pr) (auto simp add: compare_exchange_def split: if_splits)

lemma steps_left_other:
  "cas_loop_step update cell q = (cell', q') \<Longrightarrow>
   steps_left pr cell' (q' = Finished) \<le> steps_left pr cell (q = Finished)"
  by (cases q; cases pr) (auto simp add: compare_exchange_def split: if_splits)

lemma holder_steps_left:
  "steps_left (lock_holder (run_schedule sched sys)) (status_cell (run_schedule sched sys))
      (canceller (run_schedule sched sys) = Finished)
   \<le> steps_left (lock_holder sys) (status_cell sys) (canceller sys = Finished)
       - count_list sched LockHolder"
proof (induction sched arbitrary: sys)
  case Nil
  then show ?case by simp
next
  case (Cons t ts)
  show ?case
  proof (cases t)
    case LockHolder
    obtain cell' pr' where
      st: "cas_loop_step released (status_cell sys) (lock_holder sys) = (cell', pr')"
      by (cases "cas_loop_step released (status_cell sys) (lock_holder sys)")
    from steps_left_own [OF st, of "canceller sys = Finished"]
    have "steps_left (lock_holder (step t sys)) (status_cell (step t sys))
            (canceller (step t sys) = Finished)
        \<le> steps_left (lock_holder sys) (status_cell sys) (canceller sys = Finished) - 1"
      using LockHolder st by simp
    with Cons.IH [of "step t sys"] LockHolder show ?thesis by simp
  next
    case Canceller
    obtain cell' pr' where
      st: "cas_loop_step with_cancellation (status_cell sys) (canceller sys) = (cell', pr')"
      by (cases "cas_loop_step with_cancellation (status_cell sys) (canceller sys)")
    from steps_left_other [OF st, of "lock_holder sys"]
    have "steps_left (lock_holder (step t sys)) (status_cell (step t sys))
            (canceller (step t sys) = Finished)
        \<le> steps_left (lock_holder sys) (status_cell sys) (canceller sys = Finished)"
      using Canceller st by simp
    with Cons.IH [of "step t sys"] Canceller show ?thesis by simp
  qed
qed

lemma canceller_steps_left:
  "steps_left (canceller (run_schedule sched sys)) (status_cell (run_schedule sched sys))
      (lock_holder (run_schedule sched sys) = Finished)
   \<le> steps_left (canceller sys) (status_cell sys) (lock_holder sys = Finished)
       - count_list sched Canceller"
proof (induction sched arbitrary: sys)
  case Nil
  then show ?case by simp
next
  case (Cons t ts)
  show ?case
  proof (cases t)
    case LockHolder
    obtain cell' pr' where
      st: "cas_loop_step released (status_cell sys) (lock_holder sys) = (cell', pr')"
      by (cases "cas_loop_step released (status_cell sys) (lock_holder sys)")
    from steps_left_other [OF st, of "canceller sys"]
    have "steps_left (canceller (step t sys)) (status_cell (step t sys))
            (lock_holder (step t sys) = Finished)
        \<le> steps_left (canceller sys) (status_cell sys) (lock_holder sys = Finished)"
      using LockHolder st by simp
    with Cons.IH [of "step t sys"] LockHolder show ?thesis by simp
  next
    case Canceller
    obtain cell' pr' where
      st: "cas_loop_step with_cancellation (status_cell sys) (canceller sys) = (cell', pr')"
      by (cases "cas_loop_step with_cancellation (status_cell sys) (canceller sys)")
    from steps_left_own [OF st, of "lock_holder sys = Finished"]
    have "steps_left (canceller (step t sys)) (status_cell (step t sys))
            (lock_holder (step t sys) = Finished)
        \<le> steps_left (canceller sys) (status_cell sys) (lock_holder sys = Finished) - 1"
      using Canceller st by simp
    with Cons.IH [of "step t sys"] Canceller show ?thesis by simp
  qed
qed

lemma release_completes:
  assumes "3 \<le> count_list sched LockHolder"
  shows "lock_holder (run_schedule sched sys) = Finished"
proof -
  have "steps_left (lock_holder sys) (status_cell sys) (canceller sys = Finished)
          - count_list sched LockHolder = 0"
    using assms
      steps_left_le_3 [of "lock_holder sys" "status_cell sys" "canceller sys = Finished"]
    by simp
  with holder_steps_left [of sched sys] show ?thesis
    by (simp add: steps_left_0)
qed

lemma cancellation_completes:
  assumes "3 \<le> count_list sched Canceller"
  shows "canceller (run_schedule sched sys) = Finished"
proof -
  have "steps_left (canceller sys) (status_cell sys) (lock_holder sys = Finished)
          - count_list sched Canceller = 0"
    using assms
      steps_left_le_3 [of "canceller sys" "status_cell sys" "lock_holder sys = Finished"]
    by simp
  with canceller_steps_left [of sched sys] show ?thesis
    by (simp add: steps_left_0)
qed

section \<open>Claims\<close>

text \<open>
  C2. Bit-pack round trip: for every record pointer whose two lowest bits are zero,
  and every pair of flags, the status built by the three-argument constructor gives
  back exactly the pointer through \<open>getInnermostRecord\<close>, exactly the cancelled
  flag through \<open>isCancelled\<close> and exactly the locked flag through \<open>isLocked\<close>.
  The pointer has at least two bits (the flag constant \<open>0x2\<close> needs the second).
\<close>

theorem ActiveTaskStatus_round_trip:
  fixes recordPointer :: "'w::len word"
  assumes "2 \<le> LENGTH('w)"
    and "\<not> bit recordPointer 0" and "\<not> bit recordPointer 1"
  shows "getInnermostRecord (ActiveTaskStatus_init recordPointer cancelled locked)
           = recordPointer
       \<and> isCancelled (ActiveTaskStatus_init recordPointer cancelled locked) = cancelled
       \<and> isLocked (ActiveTaskStatus_init recordPointer cancelled locked) = locked"
proof (intro conjI)
  show "getInnermostRecord (ActiveTaskStatus_init recordPointer cancelled locked)
          = recordPointer"
    using assms(2,3) by (rule init_getInnermostRecord)
  show "isCancelled (ActiveTaskStatus_init recordPointer cancelled locked) = cancelled"
    using assms(2,3) by (rule init_isCancelled)
  show "isLocked (ActiveTaskStatus_init recordPointer cancelled locked) = locked"
    using assms by (rule init_isLocked)
qed

theorem ActiveTaskStatus_round_trip_witness:
  "2 \<le> LENGTH(64) \<and> \<not> bit (0x1000 :: 64 word) 0 \<and> \<not> bit (0x1000 :: 64 word) 1
   \<and> getInnermostRecord (ActiveTaskStatus_init (0x1000 :: 64 word) True False) = 0x1000
   \<and> isCancelled (ActiveTaskStatus_init (0x1000 :: 64 word) True False) = True
   \<and> isLocked (ActiveTaskStatus_init (0x1000 :: 64 word) True False) = False"
proof -
  have len: "2 \<le> LENGTH(64)" by simp
  have b0: "\<not> bit (0x1000 :: 64 word) 0" by simp
  have b1: "\<not> bit (0x1000 :: 64 word) 1" by simp
  show ?thesis
    using len b0 b1 ActiveTaskStatus_round_trip [OF len b0 b1, of True False]
    by simp
qed

text \<open>
  C5. Bit layout of the packed word: in the word built from a record pointer whose
  two low bits are zero, bit 0 is the cancelled flag, bit 1 is the locked flag and
  every other bit is the bit of the pointer. Of any status word \<open>s\<close>,
  \<open>isCancelled\<close> returns bit 0, \<open>isLocked\<close> returns bit 1, and
  \<open>getInnermostRecord\<close> returns the word with bits 0 and 1 cleared (the word
  ANDed with the complement of 3).
\<close>

theorem ActiveTaskStatus_bit_layout:
  fixes recordPointer :: "'w::len word" and s :: "'w word ActiveTaskStatus"
  assumes "2 \<le> LENGTH('w)"
    and "\<not> bit recordPointer 0" and "\<not> bit recordPointer 1"
  shows "bit (Value (ActiveTaskStatus_init recordPointer cancelled locked)) n
           = (if n = 0 then cancelled else if n = 1 then locked else bit recordPointer n)
       \<and> isCancelled s = bit (Value s) 0
       \<and> isLocked s = bit (Value s) 1
       \<and> bit (getInnermostRecord s) n = (bit (Value s) n \<and> n \<noteq> 0 \<and> n \<noteq> 1)
       \<and> getInnermostRecord s = Value s AND NOT 3"
proof (intro conjI)
  show "bit (Value (ActiveTaskStatus_init recordPointer cancelled locked)) n
          = (if n = 0 then cancelled else if n = 1 then locked else bit recordPointer n)"
    using assms by (simp add: bit_init_Value)
  show "isCancelled s = bit (Value s) 0"
    by (rule isCancelled_bit)
  show "isLocked s = bit (Value s) 1"
    using assms(1) by (simp add: isLocked_bit)
  have "2 \<le> n \<longleftrightarrow> n \<noteq> 0 \<and> n \<noteq> 1"
    by arith
  then show "bit (getInnermostRecord s) n = (bit (Value s) n \<and> n \<noteq> 0 \<and> n \<noteq> 1)"
    by (simp add: bit_getInnermostRecord)
  show "getInnermostRecord s = Value s AND NOT 3"
    by (simp add: getInnermostRecord_def RecordMask_def flags_or_3)
qed

theorem ActiveTaskStatus_bit_layout_witness:
  "bit (Value (ActiveTaskStatus_init (0x2000 :: 64 word) False True)) 0 = False
   \<and> bit (Value (ActiveTaskStatus_init (0x2000 :: 64 word) False True)) 1 = True
   \<and> bit (Value (ActiveTaskStatus_init (0x2000 :: 64 word) False True)) 13 = True
   \<and> isCancelled \<lparr>Value = 0x2002 :: 64 word\<rparr> = False
   \<and> isLocked \<lparr>Value = 0x2002 :: 64 word\<rparr> = True
   \<and> getInnermostRecord \<lparr>Value = 0x2002 :: 64 word\<rparr> = 0x2000"
proof -
  have len: "2 \<le> LENGTH(64)" by simp
  have b0: "\<not> bit (0x2000 :: 64 word) 0" by simp
  have b1: "\<not> bit (0x2000 :: 64 word) 1" by simp
  note layout = ActiveTaskStatus_bit_layout [OF len b0 b1, of False True _ "\<lparr>Value = 0x2002\<rparr>"]
  show ?thesis
    using layout [of 0] layout [of 1] layout [of 13] by simp
qed

text \<open>
  C1. Tag dispatch of \<open>Job::run\<close>. When the flags of the job have the "is task"
  bit, \<open>run\<close> never makes the \<open>RunJob\<close> call, and for a task it makes exactly the
  call of the stored \<open>ResumeTask\<close> with the task itself, the current executor and
  the task's \<open>ResumeContext\<close>. When the flags do not have the bit, \<open>run\<close> makes
  exactly the \<open>RunJob\<close> call with the job itself and the current executor, and
  never a \<open>ResumeTask\<close> call.
\<close>

theorem Job_run_dispatch:
  "(isAsyncTask (Flags (Job_of obj)) \<longrightarrow>
      (\<forall>task. obj = TaskObject task \<longrightarrow>
         Job_run this obj currentExecutor
           = Inr (ResumeTask_call (ResumeTask (job task)) this currentExecutor
                    (ResumeContext task)))
      \<and> (\<forall>f j e. Job_run this obj currentExecutor \<noteq> Inr (RunJob_call f j e)))
   \<and> (\<not> isAsyncTask (Flags (Job_of obj)) \<longrightarrow>
      Job_run this obj currentExecutor
        = Inr (RunJob_call (RunJob (Job_of obj)) this currentExecutor)
      \<and> (\<forall>f t e c. Job_run this obj currentExecutor \<noteq> Inr (ResumeTask_call f t e c)))"
proof (cases "isAsyncTask (Flags (Job_of obj))")
  case True
  then have cast: "dyn_cast_AsyncTask obj
      = (case obj of TaskObject t \<Rightarrow> Inr (Some t) | JobObject j \<Rightarrow> Inl InvalidDowncast)"
    by (simp add: dyn_cast_AsyncTask_def classof_def Job_isAsyncTask_def)
  show ?thesis
  proof (cases obj)
    case (JobObject j)
    with True cast show ?thesis by (simp add: Job_run_def)
  next
    case (TaskObject t)
    with True cast show ?thesis by (simp add: Job_run_def AsyncTask_run_def)
  qed
next
  case False
  then have "dyn_cast_AsyncTask obj = Inr None"
    by (simp add: dyn_cast_AsyncTask_def classof_def Job_isAsyncTask_def)
  with False show ?thesis by (simp add: Job_run_def)
qed

theorem Job_run_dispatch_witness:
  "Job_run (0x1000 :: 64 word)
     (TaskObject \<lparr>metadata = 0x10,
        job = \<lparr>SchedulerPrivate = [None, None],
          Flags = \<lparr>isAsyncTask = True, task_isFuture = False, task_isChildTask = False\<rparr>,
          FunctionSlot = 0x500\<rparr>,
        ResumeContext = 0x900, Status = \<lparr>Value = 0\<rparr>,
        AllocatorPrivate = [None, None, None, None]\<rparr>)
     \<lparr>Pointer = 0x7\<rparr>
     = Inr (ResumeTask_call 0x500 0x1000 \<lparr>Pointer = 0x7\<rparr> 0x900)
   \<and> Job_run (0x2000 :: 64 word)
     (JobObject \<lparr>SchedulerPrivate = [None, None],
        Flags = \<lparr>isAsyncTask = False, task_isFuture = False, task_isChildTask = False\<rparr>,
        FunctionSlot = 0x600\<rparr>)
     \<lparr>Pointer = 0x7\<rparr>
     = Inr (RunJob_call 0x600 0x2000 \<lparr>Pointer = 0x7\<rparr>)"
  using
    Job_run_dispatch [of "TaskObject \<lparr>metadata = 0x10,
        job = \<lparr>SchedulerPrivate = [None, None],
          Flags = \<lparr>isAsyncTask = True, task_isFuture = False, task_isChildTask = False\<rparr>,
          FunctionSlot = 0x500\<rparr>,
        ResumeContext = 0x900, Status = \<lparr>Value = 0\<rparr>,
        AllocatorPrivate = [None, None, None, None]\<rparr>" "0x1000 :: 64 word" "\<lparr>Pointer = 0x7\<rparr>"]
    Job_run_dispatch [of "JobObject \<lparr>SchedulerPrivate = [None, None],
        Flags = \<lparr>isAsyncTask = False, task_isFuture = False, task_isChildTask = False\<rparr>,
        FunctionSlot = 0x600\<rparr>" "0x2000 :: 64 word" "\<lparr>Pointer = 0x7\<rparr>"]
  by (simp add: ResumeTask_def RunJob_def)

text \<open>
  C6. The constructors check the tag against the kind of function pointer.
  With the "is task" flag set, the constructor taking a job-invoke function fails
  its assertion; with the flag unset, the constructor taking a task-resume
  function fails its assertion, and so does the constructor of \<open>AsyncTask\<close>,
  which goes through it. With a matched pair the constructor returns the object,
  holding the flags and the function pointer it was given.
\<close>

theorem Job_constructor_tag_check:
  "(isAsyncTask flags \<longrightarrow>
      (\<exists>msg. Job_JobInvokeFunction flags invoke = Inl (Assertion msg))
      \<and> (\<exists>j. Job_TaskContinuationFunction flags resume = Inr j
             \<and> Flags j = flags \<and> ResumeTask j = resume)
      \<and> (\<exists>t. AsyncTask_init md flags resume initialContext = Inr t
             \<and> Flags (job t) = flags \<and> ResumeTask (job t) = resume
             \<and> ResumeContext t = initialContext \<and> metadata t = md))
   \<and> (\<not> isAsyncTask flags \<longrightarrow>
      (\<exists>msg. Job_TaskContinuationFunction flags resume = Inl (Assertion msg))
      \<and> (\<exists>msg. AsyncTask_init md flags resume initialContext = Inl (Assertion msg))
      \<and> (\<exists>j. Job_JobInvokeFunction flags invoke = Inr j
             \<and> Flags j = flags \<and> RunJob j = invoke))"
proof (cases "isAsyncTask flags")
  case True
  then show ?thesis
    by (simp add: Job_JobInvokeFunction_def Job_TaskContinuationFunction_def
        AsyncTask_init_def Job_isAsyncTask_def ResumeTask_def Let_def)
next
  case False
  then show ?thesis
    by (simp add: Job_JobInvokeFunction_def Job_TaskContinuationFunction_def
        AsyncTask_init_def Job_isAsyncTask_def RunJob_def Let_def)
qed

theorem Job_constructor_tag_check_witness:
  "isl (Job_JobInvokeFunction
         \<lparr>isAsyncTask = True, task_isFuture = False, task_isChildTask = False\<rparr>
         (0x600 :: 64 word))
   \<and> \<not> isl (Job_TaskContinuationFunction
         \<lparr>isAsyncTask = True, task_isFuture = False, task_isChildTask = False\<rparr>
         (0x500 :: 64 word))
   \<and> \<not> isl (AsyncTask_init (0x10 :: 64 word)
         \<lparr>isAsyncTask = True, task_isFuture = False, task_isChildTask = False\<rparr>
         0x500 0x900)
   \<and> isl (Job_TaskContinuationFunction
         \<lparr>isAsyncTask = False, task_isFuture = False, task_isChildTask = False\<rparr>
         (0x500 :: 64 word))
   \<and> isl (AsyncTask_init (0x10 :: 64 word)
         \<lparr>isAsyncTask = False, task_isFuture = False, task_isChildTask = False\<rparr>
         0x500 0x900)
   \<and> \<not> isl (Job_JobInvokeFunction
         \<lparr>isAsyncTask = False, task_isFuture = False, task_isChildTask = False\<rparr>
         (0x600 :: 64 word))"
  using
    Job_constructor_tag_check
      [of "\<lparr>isAsyncTask = True, task_isFuture = False, task_isChildTask = False\<rparr>"
          "0x600 :: 64 word" "0x500 :: 64 word" "0x10 :: 64 word" "0x900"]
    Job_constructor_tag_check
      [of "\<lparr>isAsyncTask = False, task_isFuture = False, task_isChildTask = False\<rparr>"
          "0x600 :: 64 word" "0x500 :: 64 word" "0x10 :: 64 word" "0x900"]
  by auto

text \<open>
  C7. \<open>hasChildFragment\<close> returns exactly the "is child task" flag of the task's
  flags. When the flag is set, \<open>childFragment\<close> returns the address of the task
  plus \<open>sizeof(AsyncTask)\<close>; when it is unset, \<open>childFragment\<close> fails its
  assertion.
\<close>

theorem childFragment_after_task:
  "hasChildFragment task = task_isChildTask (Flags (job task))
   \<and> (task_isChildTask (Flags (job task)) \<longrightarrow>
        childFragment this task = Inr (this + sizeof_AsyncTask))
   \<and> (\<not> task_isChildTask (Flags (job task)) \<longrightarrow>
        (\<exists>msg. childFragment this task = Inl (Assertion msg)))"
  by (simp add: childFragment_def hasChildFragment_def)

theorem childFragment_after_task_witness:
  "childFragment (0x1000 :: 64 word)
     \<lparr>metadata = 0x10,
      job = \<lparr>SchedulerPrivate = [None, None],
        Flags = \<lparr>isAsyncTask = True, task_isFuture = False, task_isChildTask = True\<rparr>,
        FunctionSlot = 0x500\<rparr>,
      ResumeContext = 0x900, Status = \<lparr>Value = 0\<rparr>,
      AllocatorPrivate = [None, None, None, None]\<rparr>
     = Inr 0x1060
   \<and> isl (childFragment (0x1000 :: 64 word)
     \<lparr>metadata = 0x10,
      job = \<lparr>SchedulerPrivate = [None, None],
        Flags = \<lparr>isAsyncTask = True, task_isFuture = False, task_isChildTask = False\<rparr>,
        FunctionSlot = 0x500\<rparr>,
      ResumeContext = 0x900, Status = \<lparr>Value = 0\<rparr>,
      AllocatorPrivate = [None, None, None, None]\<rparr>)"
  using
    childFragment_after_task [of
      "\<lparr>metadata = 0x10,
        job = \<lparr>SchedulerPrivate = [None, None],
          Flags = \<lparr>isAsyncTask = True, task_isFuture = False, task_isChildTask = True\<rparr>,
          FunctionSlot = 0x500\<rparr>,
        ResumeContext = 0x900, Status = \<lparr>Value = 0\<rparr>,
        AllocatorPrivate = [None, None, None, None]\<rparr>" "0x1000 :: 64 word"]
    childFragment_after_task [of
      "\<lparr>metadata = 0x10,
        job = \<lparr>SchedulerPrivate = [None, None],
          Flags = \<lparr>isAsyncTask = True, task_isFuture = False, task_isChildTask = False\<rparr>,
          FunctionSlot = 0x500\<rparr>,
        ResumeContext = 0x900, Status = \<lparr>Value = 0\<rparr>,
        AllocatorPrivate = [None, None, None, None]\<rparr>" "0x1000 :: 64 word"]
  by (auto simp add: sizeof_AsyncTask_def sizeof_pointer_def)

text \<open>
  C8. \<open>AsyncTask::isCancelled\<close> makes one access to the status cell, a load with
  relaxed order; it returns the cancelled bit (bit 0) of the status it loaded, and
  it leaves the task as it was.
\<close>

theorem AsyncTask_isCancelled_relaxed_load:
  "AsyncTask_isCancelled task
     = (isCancelled (Status task), task, [Load memory_order_relaxed])
   \<and> isCancelled (Status task) = bit (Value (Status task)) 0"
  by (simp add: AsyncTask_isCancelled_def atomic_load_def isCancelled_bit)

text \<open>
  C9. When the records reached from the innermost record of a status through the
  parent links are a finite chain \<open>rs\<close> ending at null, going through
  \<open>records()\<close> ends, and visits exactly the records of \<open>rs\<close> in their order,
  the innermost first; no record is visited twice and the null pointer is not
  visited. The traversal is a function of the status and of the parent links and
  changes neither, so going through \<open>records()\<close> again visits the same records.
\<close>

theorem records_visits_chain:
  assumes "chain getStatusRecordParent (getInnermostRecord s) rs"
  shows "traverse getStatusRecordParent (records s) = Some rs
       \<and> distinct rs \<and> 0 \<notin> set rs"
proof -
  have "traverse getStatusRecordParent (records s) = Some rs"
    by (simp add: traverse_records visit_chain [OF assms])
  with chain_distinct [OF assms] chain_not_null [OF assms]
  show ?thesis by simp
qed

theorem records_visits_chain_witness:
  "chain (\<lambda>r. if r = 0x30 then 0x20 else if r = 0x20 then 0x10 else 0)
     (getInnermostRecord \<lparr>Value = 0x31 :: 64 word\<rparr>) [0x30, 0x20, 0x10]
   \<and> traverse (\<lambda>r. if r = 0x30 then 0x20 else if r = 0x20 then 0x10 else 0)
       (records \<lparr>Value = 0x31 :: 64 word\<rparr>) = Some [0x30, 0x20, 0x10]"
proof -
  have innermost: "getInnermostRecord \<lparr>Value = 0x31 :: 64 word\<rparr> = 0x30"
    by (simp add: getInnermostRecord_def RecordMask_def IsCancelled_def IsLocked_def)
  have links: "chain (\<lambda>r. if r = 0x30 then 0x20 else if r = 0x20 then 0x10 else 0)
     (getInnermostRecord \<lparr>Value = 0x31 :: 64 word\<rparr>) [0x30, 0x20, 0x10]"
    by (simp add: innermost)
  from links records_visits_chain [OF links] show ?thesis by simp
qed

text \<open>
  C10. A task that the constructor of \<open>AsyncTask\<close> returns has the default
  status, the all-zero word, whatever the metadata, flags, continuation and
  initial context were: \<open>isCancelled\<close> of the task returns false, the locked bit
  is unset, the innermost record is null and \<open>records()\<close> visits nothing.
\<close>

theorem AsyncTask_init_status:
  assumes "AsyncTask_init md flags run initialContext = Inr task"
  shows "Status task = ActiveTaskStatus_default
       \<and> Value (Status task) = 0
       \<and> fst (AsyncTask_isCancelled task) = False
       \<and> isLocked (Status task) = False
       \<and> getInnermostRecord (Status task) = 0
       \<and> traverse getStatusRecordParent (records (Status task)) = Some []"
proof -
  from assms have status: "Status task = ActiveTaskStatus_default"
    by (auto simp add: AsyncTask_init_def Let_def split: sum.splits if_splits)
  then have zero: "Value (Status task) = 0"
    by (simp add: ActiveTaskStatus_default_def)
  have null: "getInnermostRecord (Status task) = 0"
    by (simp add: getInnermostRecord_def zero)
  have "chain getStatusRecordParent (getInnermostRecord (Status task)) []"
    by (simp add: null)
  from visit_chain [OF this] status zero null show ?thesis
    by (simp add: traverse_records AsyncTask_isCancelled_def atomic_load_def
        isCancelled_def isLocked_def)
qed

theorem AsyncTask_init_status_witness:
  "AsyncTask_init (0x10 :: 64 word)
     \<lparr>isAsyncTask = True, task_isFuture = True, task_isChildTask = True\<rparr> 0x500 0x900
     = Inr \<lparr>metadata = 0x10,
        job = \<lparr>SchedulerPrivate = [None, None],
          Flags = \<lparr>isAsyncTask = True, task_isFuture = True, task_isChildTask = True\<rparr>,
          FunctionSlot = 0x500\<rparr>,
        ResumeContext = 0x900, Status = \<lparr>Value = 0\<rparr>,
        AllocatorPrivate = [None, None, None, None]\<rparr>
   \<and> fst (AsyncTask_isCancelled \<lparr>metadata = 0x10 :: 64 word,
        job = \<lparr>SchedulerPrivate = [None, None],
          Flags = \<lparr>isAsyncTask = True, task_isFuture = True, task_isChildTask = True\<rparr>,
          FunctionSlot = 0x500\<rparr>,
        ResumeContext = 0x900, Status = \<lparr>Value = 0\<rparr>,
        AllocatorPrivate = [None, None, None, None]\<rparr>) = False"
proof -
  have built: "AsyncTask_init (0x10 :: 64 word)
     \<lparr>isAsyncTask = True, task_isFuture = True, task_isChildTask = True\<rparr> 0x500 0x900
     = Inr \<lparr>metadata = 0x10,
        job = \<lparr>SchedulerPrivate = [None, None],
          Flags = \<lparr>isAsyncTask = True, task_isFuture = True, task_isChildTask = True\<rparr>,
          FunctionSlot = 0x500\<rparr>,
        ResumeContext = 0x900, Status = \<lparr>Value = 0\<rparr>,
        AllocatorPrivate = [None, None, None, None]\<rparr>"
    by (simp add: AsyncTask_init_def Job_TaskContinuationFunction_def Job_isAsyncTask_def
        ActiveTaskStatus_default_def Let_def)
  from built AsyncTask_init_status [OF built, where getStatusRecordParent = "\<lambda>r. 0"]
  show ?thesis by blast
qed

text \<open>
  C3. The holder of the lock releases it while a canceller raises the cancelled
  bit, each by its own compare-and-swap loop on the status cell, their steps
  interleaved in any order. At the start the lock bit is set and neither thread
  is done. Then, after any schedule: the lock bit is set exactly as long as the
  holder has not released it; once the canceller is done the cancelled bit is
  set; and a cancelled bit that is set stays set through every further step, in
  particular through the release. So when both are done, the final status word
  has the cancelled bit set and the lock bit clear. Neither loop spins for ever:
  a thread is done after at most three steps of its own.
\<close>

theorem release_keeps_cancellation:
  fixes sys :: "'w::len word ActiveTaskStatus system"
  assumes "2 \<le> LENGTH('w)"
    and "isLocked (status_cell sys)"
    and "lock_holder sys \<noteq> Finished" and "canceller sys \<noteq> Finished"
  shows "(lock_holder (run_schedule sched sys) = Finished)
           = (\<not> isLocked (status_cell (run_schedule sched sys)))
       \<and> (canceller (run_schedule sched sys) = Finished
            \<longrightarrow> isCancelled (status_cell (run_schedule sched sys)))
       \<and> (isCancelled (status_cell (run_schedule sched sys))
            \<longrightarrow> isCancelled (status_cell (run_schedule (sched @ later) sys)))
       \<and> (canceller (run_schedule sched sys) = Finished
            \<and> lock_holder (run_schedule (sched @ later) sys) = Finished
            \<longrightarrow> isCancelled (status_cell (run_schedule (sched @ later) sys))
              \<and> \<not> isLocked (status_cell (run_schedule (sched @ later) sys)))
       \<and> (3 \<le> count_list sched LockHolder
            \<longrightarrow> lock_holder (run_schedule sched sys) = Finished)
       \<and> (3 \<le> count_list sched Canceller
            \<longrightarrow> canceller (run_schedule sched sys) = Finished)"
proof -
  have start: "canceller sys = Finished \<longrightarrow> isCancelled (status_cell sys)"
    "(lock_holder sys = Finished) = (\<not> isLocked (status_cell sys))"
    using assms(2-4) by simp_all
  note now = run_schedule_invariant [OF assms(1) start, of sched]
  note then_ = run_schedule_invariant [OF assms(1) start, of "sched @ later"]
  have mono: "isCancelled (status_cell (run_schedule sched sys))
      \<longrightarrow> isCancelled (status_cell (run_schedule (sched @ later) sys))"
    by (simp add: run_schedule_append run_schedule_cancelled_mono [OF assms(1)])
  have ends: "3 \<le> count_list sched LockHolder
      \<longrightarrow> lock_holder (run_schedule sched sys) = Finished"
    "3 \<le> count_list sched Canceller
      \<longrightarrow> canceller (run_schedule sched sys) = Finished"
    by (simp_all add: release_completes cancellation_completes)
  from now then_ mono ends show ?thesis by blast
qed

theorem release_keeps_cancellation_witness:
  "isLocked \<lparr>Value = 0x1002 :: 64 word\<rparr>
   \<and> canceller (run_schedule [LockHolder, Canceller, Canceller]
        \<lparr>status_cell = \<lparr>Value = 0x1002 :: 64 word\<rparr>,
         lock_holder = Start, canceller = Start\<rparr>) = Finished
   \<and> lock_holder (run_schedule [LockHolder, Canceller, Canceller]
        \<lparr>status_cell = \<lparr>Value = 0x1002 :: 64 word\<rparr>,
         lock_holder = Start, canceller = Start\<rparr>) = Snapshot \<lparr>Value = 0x1002\<rparr>
   \<and> lock_holder (run_schedule ([LockHolder, Canceller, Canceller] @ [LockHolder, LockHolder])
        \<lparr>status_cell = \<lparr>Value = 0x1002 :: 64 word\<rparr>,
         lock_holder = Start, canceller = Start\<rparr>) = Finished
   \<and> isCancelled (status_cell
        (run_schedule ([LockHolder, Canceller, Canceller] @ [LockHolder, LockHolder])
          \<lparr>status_cell = \<lparr>Value = 0x1002 :: 64 word\<rparr>,
           lock_holder = Start, canceller = Start\<rparr>))
   \<and> \<not> isLocked (status_cell
        (run_schedule ([LockHolder, Canceller, Canceller] @ [LockHolder, LockHolder])
          \<lparr>status_cell = \<lparr>Value = 0x1002 :: 64 word\<rparr>,
           lock_holder = Start, canceller = Start\<rparr>))"
proof -
  let ?sys = "\<lparr>status_cell = \<lparr>Value = 0x1002 :: 64 word\<rparr>,
               lock_holder = Start, canceller = Start\<rparr>"
  have len: "2 \<le> LENGTH(64)" by simp
  have held: "isLocked \<lparr>Value = 0x1002 :: 64 word\<rparr>"
    by (simp add: isLocked_def IsLocked_def)
  then have locked: "isLocked (status_cell ?sys)" by simp
  have holder: "lock_holder ?sys \<noteq> Finished" and other: "canceller ?sys \<noteq> Finished"
    by simp_all
  have words:
    "released \<lparr>Value = 0x1003 :: 64 word\<rparr> = \<lparr>Value = 0x1001\<rparr>"
    "with_cancellation \<lparr>Value = 0x1002 :: 64 word\<rparr> = \<lparr>Value = 0x1003\<rparr>"
    by (simp_all add: released_def with_cancellation_def ActiveTaskStatus_init_def
        getInnermostRecord_def isCancelled_def isLocked_def RecordMask_def
        IsCancelled_def IsLocked_def)
  have raised: "run_schedule [LockHolder, Canceller, Canceller] ?sys
      = \<lparr>status_cell = \<lparr>Value = 0x1003\<rparr>,
         lock_holder = Snapshot \<lparr>Value = 0x1002\<rparr>, canceller = Finished\<rparr>"
    by (simp add: compare_exchange_def words)
  have freed: "lock_holder
      (run_schedule ([LockHolder, Canceller, Canceller] @ [LockHolder, LockHolder]) ?sys)
      = Finished"
    by (simp add: compare_exchange_def words)
  from release_keeps_cancellation [OF len locked holder other,
      of "[LockHolder, Canceller, Canceller]" "[LockHolder, LockHolder]"]
    raised freed held
  show ?thesis by simp
qed

end
